theory Spec2Isabelle
  imports Complex_Main "HOL-Library.Word"
begin

unbundle bit_operations_syntax

section \<open>JavaScript values used by generate.js\<close>

text \<open>
  A JavaScript string is a sequence of UTF-16 code units, and \<open>.length\<close> counts code
  units. A \<open>Buffer\<close> is a sequence of bytes. Sizes are the non-negative integers that
  \<open>parseSize\<close> returns; the embedding takes them as natural numbers, that is, in the range
  where double arithmetic on integers is exact and the runtime's allocation limits are not
  reached.
\<close>

type_synonym byte = "8 word"
type_synonym jsstring = "16 word list"

definition js :: "string \<Rightarrow> jsstring" where
  \<comment> \<open>an ASCII string literal of the source\<close>
  "js s = map of_char s"

definition js_repeat :: "jsstring \<Rightarrow> nat \<Rightarrow> jsstring" where
  \<comment> \<open>\<open>String.prototype.repeat\<close> for a non-negative integer count\<close>
  "js_repeat s n = concat (replicate n s)"

definition str_or :: "jsstring option \<Rightarrow> jsstring \<Rightarrow> jsstring" where
  \<comment> \<open>\<open>a || b\<close> on an optional string: \<open>undefined\<close> and the empty string are falsy\<close>
  "str_or a b = (case a of None \<Rightarrow> b | Some s \<Rightarrow> if s = [] then b else s)"

definition num_or :: "nat option \<Rightarrow> nat \<Rightarrow> nat" where
  \<comment> \<open>\<open>a || b\<close> on an optional number: \<open>undefined\<close> and \<open>0\<close> are falsy\<close>
  "num_or a b = (case a of None \<Rightarrow> b | Some n \<Rightarrow> if n = 0 then b else n)"

text \<open>
  \<open>Readable.push\<close> of a string (no encoding given, stream not in object mode) stores
  \<open>Buffer.from(chunk, 'utf8')\<close>: one to three bytes per code unit, four for a surrogate
  pair, and the three bytes of U+FFFD for a surrogate that has no partner.
\<close>

definition utf8_pair :: "nat \<Rightarrow> nat \<Rightarrow> byte list" where
  "utf8_pair hi lo =
     (let cp = 0x10000 + (hi - 0xD800) * 0x400 + (lo - 0xDC00)
      in [of_nat (0xF0 + cp div 0x40000), of_nat (0x80 + cp div 0x1000 mod 0x40),
          of_nat (0x80 + cp div 0x40 mod 0x40), of_nat (0x80 + cp mod 0x40)])"

fun utf8_encode :: "jsstring \<Rightarrow> byte list" where
  "utf8_encode [] = []"
| "utf8_encode (u # us) =
     (if u < 0x80 then [ucast u] @ utf8_encode us
      else if u < 0x800 then
        [of_nat (0xC0 + unat u div 0x40), of_nat (0x80 + unat u mod 0x40)] @ utf8_encode us
      else if 0xD800 \<le> u \<and> u < 0xDC00 then
        (case us of
           [] \<Rightarrow> [0xEF, 0xBF, 0xBD]
         | v # vs \<Rightarrow>
             if 0xDC00 \<le> v \<and> v < 0xE000 then utf8_pair (unat u) (unat v) @ utf8_encode vs
             else [0xEF, 0xBF, 0xBD] @ utf8_encode us)
      else if 0xDC00 \<le> u \<and> u < 0xE000 then [0xEF, 0xBF, 0xBD] @ utf8_encode us
      else [of_nat (0xE0 + unat u div 0x1000), of_nat (0x80 + unat u div 0x40 mod 0x40),
            of_nat (0x80 + unat u mod 0x40)] @ utf8_encode us)"

section \<open>The environment of a run\<close>

text \<open>
  Everything a run reads that is not one of its parameters: the results of the calls of
  \<open>Math.random()\<close> and \<open>Date.now()\<close> in call order, the bytes that
  \<open>Buffer.allocUnsafe\<close> hands out uninitialised, and the double-precision value of
  \<open>Math.floor((bytesWritten / targetBytes) * 100)\<close>.
\<close>

record env =
  math_random :: "nat \<Rightarrow> rat"
  alloc_unsafe :: "nat \<Rightarrow> byte"
  date_now :: "nat \<Rightarrow> int"
  percent :: "nat \<Rightarrow> nat \<Rightarrow> int"

section \<open>The generators\<close>

text \<open>
  \<open>TextDataGenerator\<close> and \<open>BinaryDataGenerator\<close> both extend \<open>Readable\<close> and carry
  \<open>targetSize\<close>, \<open>generated\<close>, \<open>chunkSize\<close> and \<open>chunk\<close>; the text generator also keeps
  \<open>basePattern\<close>. The element type is a code unit for the text generator and a byte for the
  binary one.
\<close>

record 'a generator =
  targetSize :: nat
  generated :: nat
  chunkSize :: nat
  chunk :: "'a list"

record text_generator = "16 word generator" +
  basePattern :: jsstring

definition default_pattern :: jsstring where
  "default_pattern = js (
     ''Lorem ipsum dolor sit amet, consectetur adipiscing elit. '' @
     ''Sed do eiusmod tempor incididunt ut labore et dolore magna aliqua. '' @
     ''Ut enim ad minim veniam, quis nostrud exercitation ullamco laboris. '' @
     ''Duis aute irure dolor in reprehenderit in voluptate velit esse cillum. '' @
     ''Excepteur sint occaecat cupidatat non proident, sunt in culpa qui officia. '')"

definition text_base :: "jsstring option \<Rightarrow> jsstring" where
  \<comment> \<open>\<open>basePattern\<close> once the line break is appended\<close>
  "text_base p = str_or p default_pattern @ [0x0A]"

definition TextDataGenerator :: "nat \<Rightarrow> jsstring option \<Rightarrow> nat option \<Rightarrow> text_generator" where
  \<comment> \<open>\<open>new TextDataGenerator(targetSize, {pattern, chunkSize})\<close>\<close>
  "TextDataGenerator target pattern chunk_size =
     (let base = str_or pattern default_pattern @ [0x0A];
          sz = num_or chunk_size (64 * 1024);
          repetitions = nat \<lceil>of_nat sz / (of_nat (length base) :: rat)\<rceil>
      in \<lparr>targetSize = target, generated = 0, chunkSize = sz,
          chunk = take sz (js_repeat base repetitions), basePattern = base\<rparr>)"

function for_fill :: "(nat \<Rightarrow> byte) \<Rightarrow> nat \<Rightarrow> nat \<Rightarrow> byte list \<Rightarrow> byte list" where
  \<comment> \<open>\<open>for (let i = 0; i < size; i++) buffer[i] = f(i)\<close>, entered at \<open>i\<close>\<close>
  "for_fill f i sz buffer =
     (if i < sz then for_fill f (i + 1) sz (buffer[i := f i]) else buffer)"
  by pat_completeness auto
termination
  by (relation "measure (\<lambda>(f, i, sz, buffer). sz - i)") auto

declare for_fill.simps [simp del]

definition sequence :: "byte list" where
  "sequence = [0, 1, 2, 3, 4, 5, 6, 7, 8, 9, 10, 11, 12, 13, 14, 15]"

definition createBinaryPattern :: "env \<Rightarrow> nat \<Rightarrow> jsstring option \<Rightarrow> byte list" where
  \<comment> \<open>the \<open>k\<close>-th loop iteration of the random branch makes the \<open>k\<close>-th call of
      \<open>Math.random()\<close>; storing into a \<open>Buffer\<close> keeps the low eight bits\<close>
  "createBinaryPattern e sz pattern =
     (let buffer = map (alloc_unsafe e) [0..<sz]
      in if pattern = Some (js ''random'') then
           for_fill (\<lambda>i. of_int \<lfloor>math_random e i * 256\<rfloor>) 0 sz buffer
         else if pattern = Some (js ''zeros'') then map (\<lambda>_. 0) buffer
         else if pattern = Some (js ''ones'') then map (\<lambda>_. 255) buffer
         else for_fill (\<lambda>i. sequence ! (i mod length sequence)) 0 sz buffer)"

definition BinaryDataGenerator :: "env \<Rightarrow> nat \<Rightarrow> jsstring option \<Rightarrow> nat option \<Rightarrow> byte generator" where
  \<comment> \<open>\<open>new BinaryDataGenerator(targetSize, {pattern, chunkSize})\<close>\<close>
  "BinaryDataGenerator e target pattern chunk_size =
     (let sz = num_or chunk_size (64 * 1024)
      in \<lparr>targetSize = target, generated = 0, chunkSize = sz,
          chunk = createBinaryPattern e sz pattern\<rparr>)"

definition gen_read :: "('a, 'b) generator_scheme \<Rightarrow> 'a list option \<times> ('a, 'b) generator_scheme" where
  \<comment> \<open>\<open>_read()\<close>, the same text in both classes; \<open>None\<close> is \<open>push(null)\<close>\<close>
  "gen_read g =
     (if generated g \<ge> targetSize g then (None, g)
      else let remaining = targetSize g - generated g;
               toWrite = min remaining (length (chunk g));
               data = take toWrite (chunk g)
           in (Some data, g\<lparr>generated := generated g + length data\<rparr>))"

text \<open>
  The consumer pulls until the end of the sequence is signalled. A generator that pushed
  empty chunks for ever would never get there, so the result is optional.
\<close>

partial_function (option) pull_all :: "('a, 'b) generator_scheme \<Rightarrow> 'a list list option" where
  "pull_all g =
     (case gen_read g of
        (None, _) \<Rightarrow> Some []
      | (Some data, g') \<Rightarrow> Option.bind (pull_all g') (\<lambda>rest. Some (data # rest)))"

declare pull_all.simps [code]

definition emitted :: "('a, 'b) generator_scheme \<Rightarrow> 'a list option" where
  \<comment> \<open>everything the generator yields, in order\<close>
  "emitted g = map_option concat (pull_all g)"

section \<open>Size strings\<close>

datatype error =
    InvalidSizeFormat jsstring  \<comment> \<open>\<open>Error("Invalid size format: ...")\<close>\<close>
  | UnknownType jsstring        \<comment> \<open>\<open>Error("Unknown type: ...")\<close>\<close>
  | NotANumber                  \<comment> \<open>not thrown: \<open>parseSize\<close> would return \<open>NaN\<close>\<close>

definition is_digit :: "16 word \<Rightarrow> bool" where
  \<comment> \<open>\<open>\d\<close>\<close>
  "is_digit u \<longleftrightarrow> 0x30 \<le> u \<and> u \<le> 0x39"

definition is_space :: "16 word \<Rightarrow> bool" where
  \<comment> \<open>\<open>\s\<close>: the white space and line terminator code units of ECMAScript\<close>
  "is_space u \<longleftrightarrow>
     u \<in> set [0x09, 0x0A, 0x0B, 0x0C, 0x0D, 0x20, 0xA0, 0x1680, 0x2028, 0x2029, 0x202F,
              0x205F, 0x3000, 0xFEFF]
     \<or> (0x2000 \<le> u \<and> u \<le> 0x200A)"

definition to_upper :: "16 word \<Rightarrow> 16 word" where
  \<comment> \<open>upper case of an ASCII letter. It is used only to compare with the unit names: no
      other code unit is equal to one of their letters under the \<open>i\<close> flag, and
      \<open>toUpperCase\<close> is applied to a matched unit only\<close>
  "to_upper u = (if 0x61 \<le> u \<and> u \<le> 0x7A then u - 0x20 else u)"

definition multipliers :: "(jsstring \<times> nat) list" where
  "multipliers =
     [(js ''B'', 1),
      (js ''KB'', 1024),
      (js ''MB'', 1024 * 1024),
      (js ''GB'', 1024 * 1024 * 1024),
      (js ''TB'', 1024 * 1024 * 1024 * 1024)]"

definition unit_names :: "jsstring list" where
  \<comment> \<open>the alternatives of the second group, \<open>(B|KB|MB|GB|TB)\<close>\<close>
  "unit_names = [js ''B'', js ''KB'', js ''MB'', js ''GB'', js ''TB'']"

definition size_match :: "jsstring \<Rightarrow> (jsstring \<times> jsstring option) option" where
  \<comment> \<open>\<open>sizeStr.match(/^(\d+(?:\.\d+)?)\s*(B|KB|MB|GB|TB)?$/i)\<close>: the two groups of the
      match. The greedy runs never have to give a code unit back, since what follows a run
      of digits or of white space in the pattern cannot start with one\<close>
  "size_match s =
     (let digits = takeWhile is_digit s;
          r1 = dropWhile is_digit s
      in if digits = [] then None
         else
           let frac = (case r1 of
                         [] \<Rightarrow> []
                       | u # r \<Rightarrow> if u = 0x2E \<and> takeWhile is_digit r \<noteq> []
                                  then u # takeWhile is_digit r else []);
               r2 = drop (length frac) r1;
               r3 = dropWhile is_space r2
           in if r3 = [] then Some (digits @ frac, None)
              else if map to_upper r3 \<in> set unit_names then Some (digits @ frac, Some r3)
              else None)"

definition digit_value :: "16 word \<Rightarrow> nat" where
  "digit_value u = unat u - 0x30"

definition decimal :: "jsstring \<Rightarrow> nat" where
  "decimal ds = foldl (\<lambda>a u. 10 * a + digit_value u) 0 ds"

definition parseFloat :: "jsstring \<Rightarrow> rat" where
  \<comment> \<open>\<open>parseFloat\<close> on the first group, digits with an optional fraction: its exact
      decimal value (the rounding to a double is not part of the embedding)\<close>
  "parseFloat t =
     (let ip = takeWhile is_digit t;
          fp = drop (length ip + 1) t
      in of_nat (decimal ip) + of_nat (decimal fp) / 10 ^ length fp)"

definition parseSize :: "jsstring \<Rightarrow> error + nat" where
  "parseSize sizeStr =
     (case size_match sizeStr of
        None \<Rightarrow> Inl (InvalidSizeFormat sizeStr)
      | Some (num, unit_text) \<Rightarrow>
          let v = parseFloat num;
              unit_name = map to_upper (case unit_text of None \<Rightarrow> js ''B'' | Some u \<Rightarrow> u)
          in (case map_of multipliers unit_name of
                None \<Rightarrow> Inl NotANumber
              | Some m \<Rightarrow> Inr (nat \<lfloor>v * of_nat m\<rfloor>)))"





section \<open>A run of the program\<close>

text \<open>
  The stream delivers every pushed chunk, as a \<open>Buffer\<close>, to the \<open>'data'\<close> listener that
  reports progress and to the file writer of the pipeline. A progress line is kept as the
  values printed in it.
\<close>

record progress_line =
  shown_progress :: int
  shown_bytes :: nat
  shown_target :: nat
  shown_elapsed :: int

record tracker =
  lastProgress :: int
  bytesWritten :: nat
  clock_calls :: nat
  stdout_lines :: "progress_line list"

definition on_data :: "env \<Rightarrow> int \<Rightarrow> nat \<Rightarrow> tracker \<Rightarrow> byte list \<Rightarrow> tracker" where
  \<comment> \<open>the listener of \<open>generator.on('data', ...)\<close>; it calls \<open>Date.now()\<close> twice when
      it prints\<close>
  "on_data e startTime targetBytes tr buf =
     (let bw = bytesWritten tr + length buf;
          progress = percent e bw targetBytes
      in if progress \<ge> lastProgress tr + 10 \<or> bw = targetBytes then
           tr\<lparr>lastProgress := progress, bytesWritten := bw,
              clock_calls := clock_calls tr + 2,
              stdout_lines := stdout_lines tr @
                [\<lparr>shown_progress = progress, shown_bytes = bw, shown_target = targetBytes,
                  shown_elapsed = date_now e (clock_calls tr + 1) - startTime\<rparr>]\<rparr>
         else tr\<lparr>bytesWritten := bw\<rparr>)"

partial_function (option) flow ::
  "('a list \<Rightarrow> byte list) \<Rightarrow> (tracker \<Rightarrow> byte list \<Rightarrow> tracker) \<Rightarrow> ('a, 'b) generator_scheme
     \<Rightarrow> tracker \<Rightarrow> byte list \<Rightarrow> (tracker \<times> byte list) option" where
  \<comment> \<open>\<open>enc\<close> is what \<open>push\<close> does to a chunk: UTF-8 for a string, nothing for a
      \<open>Buffer\<close>\<close>
  "flow enc listener g tr written =
     (case gen_read g of
        (None, _) \<Rightarrow> Some (tr, written)
      | (Some data, g') \<Rightarrow> flow enc listener g' (listener tr (enc data)) (written @ enc data))"

declare flow.simps [code]

definition encoded :: "('a list \<Rightarrow> byte list) \<Rightarrow> ('a, 'b) generator_scheme \<Rightarrow> byte list option" where
  \<comment> \<open>the bytes a consumer of the stream receives: every chunk as \<open>push\<close> stores it, in
      order\<close>
  "encoded enc g = map_option (\<lambda>cs. concat (map enc cs)) (pull_all g)"

record options =
  opt_pattern :: "jsstring option"
  opt_binaryPattern :: "jsstring option"
  opt_chunkSize :: "nat option"

record run =
  thrown :: "error option"
  mkdir_called :: bool
  written_file :: "(jsstring \<times> byte list) option"
  console :: "progress_line list"

definition finished :: "jsstring \<Rightarrow> tracker \<times> byte list \<Rightarrow> run" where
  "finished output r =
     \<lparr>thrown = None, mkdir_called = True, written_file = Some (output, snd r),
      console = stdout_lines (fst r)\<rparr>"

definition generateData :: "env \<Rightarrow> jsstring \<Rightarrow> jsstring \<Rightarrow> jsstring \<Rightarrow> options \<Rightarrow> run option" where
  \<comment> \<open>\<open>None\<close>: the pipeline never finishes. \<open>mkdir\<close> and the file writes are taken to
      succeed\<close>
  "generateData e type sizeStr output opts =
     (case parseSize sizeStr of
        Inl err \<Rightarrow> Some \<lparr>thrown = Some err, mkdir_called = False, written_file = None, console = []\<rparr>
      | Inr targetBytes \<Rightarrow>
          let startTime = date_now e 0;
              tr0 = \<lparr>lastProgress = 0, bytesWritten = 0, clock_calls = 1, stdout_lines = []\<rparr>
          in if type = js ''text'' then
               map_option (finished output)
                 (flow utf8_encode (on_data e startTime targetBytes)
                    (TextDataGenerator targetBytes (opt_pattern opts) (opt_chunkSize opts)) tr0 [])
             else if type = js ''binary'' then
               map_option (finished output)
                 (flow (\<lambda>b. b) (on_data e startTime targetBytes)
                    (BinaryDataGenerator e targetBytes (opt_binaryPattern opts) (opt_chunkSize opts))
                    tr0 [])
             else Some \<lparr>thrown = Some (UnknownType type), mkdir_called = True, written_file = None,
                        console = []\<rparr>)"

record cli_options =
  cli_type :: jsstring
  cli_size :: jsstring
  cli_output :: jsstring
  cli_pattern :: "jsstring option"
  cli_binaryPattern :: jsstring
  cli_chunkSize :: jsstring

definition cli_action :: "env \<Rightarrow> cli_options \<Rightarrow> run option" where
  \<comment> \<open>the \<open>action\<close> of the command; \<open>thrown\<close> is what its \<open>catch\<close> prints before
      \<open>process.exit(1)\<close>\<close>
  "cli_action e opts =
     (case parseSize (cli_chunkSize opts) of
        Inl err \<Rightarrow> Some \<lparr>thrown = Some err, mkdir_called = False, written_file = None, console = []\<rparr>
      | Inr chunk_size \<Rightarrow>
          generateData e (cli_type opts) (cli_size opts) (cli_output opts)
            \<lparr>opt_pattern = cli_pattern opts,
             opt_binaryPattern = Some (cli_binaryPattern opts),
             opt_chunkSize = Some chunk_size\<rparr>)"

definition quiet_env :: env where
  \<comment> \<open>an environment for concrete runs: \<open>Math.random()\<close> returns 0, the clock stands at 0,
      fresh memory holds \<open>0xAA\<close>, percentages are exact\<close>
  "quiet_env =
     \<lparr>math_random = (\<lambda>_. 0), alloc_unsafe = (\<lambda>_. 0xAA), date_now = (\<lambda>_. 0),
      percent = (\<lambda>bw target. \<lfloor>(of_nat bw / of_nat target :: rat) * 100\<rfloor>)\<rparr>"

definition noisy_env :: env where
  \<comment> \<open>a second environment, different from \<open>quiet_env\<close> in every component\<close>
  "noisy_env =
     \<lparr>math_random = (\<lambda>k. 1 / 2), alloc_unsafe = (\<lambda>k. of_nat k), date_now = (\<lambda>k. 1000 + int k),
      percent = (\<lambda>bw target. 0)\<rparr>"

section \<open>Chunking\<close>

lemma gen_read_end:
  "targetSize g \<le> generated g \<Longrightarrow> pull_all g = Some []"
  by (subst pull_all.simps) (simp add: gen_read_def)

lemma pull_all_step:
  assumes "generated g < targetSize g"
  shows "pull_all g =
     Option.bind
       (pull_all (g\<lparr>generated := generated g
            + min (targetSize g - generated g) (length (chunk g))\<rparr>))
       (\<lambda>rest. Some (take (targetSize g - generated g) (chunk g) # rest))"
  using assms by (subst pull_all.simps) (simp add: gen_read_def Let_def min_def)

lemma remaining_decreases:
  fixes t k c :: nat
  shows "k < t \<Longrightarrow> 0 < c \<Longrightarrow> t - (k + min (t - k) c) < t - k"
  by arith

lemma pull_all_closed:
  assumes "chunk g \<noteq> []"
  shows "pull_all g = Some
     (replicate ((targetSize g - generated g) div length (chunk g)) (chunk g) @
      (if (targetSize g - generated g) mod length (chunk g) = 0 then []
       else [take ((targetSize g - generated g) mod length (chunk g)) (chunk g)]))"
  using assms
proof (induction "targetSize g - generated g" arbitrary: g rule: less_induct)
  case less
  let ?r = "targetSize g - generated g" and ?c = "length (chunk g)"
  from less.prems have pos: "0 < ?c" by simp
  show ?case
  proof (cases "generated g < targetSize g")
    case False
    then show ?thesis by (simp add: gen_read_end)
  next
    case True
    let ?g' = "g\<lparr>generated := generated g + min ?r ?c\<rparr>"
    have dec: "targetSize ?g' - generated ?g' < ?r"
      using remaining_decreases [OF True pos] by simp
    have ne: "chunk ?g' \<noteq> []" using less.prems by simp
    note IH = less.hyps [OF dec ne]
    show ?thesis
    proof (cases "?r < ?c")
      case True
      then have r': "targetSize ?g' - generated ?g' = 0" by (simp add: min_def)
      have "pull_all ?g' = Some []" using IH unfolding r' by simp
      with True \<open>generated g < targetSize g\<close> show ?thesis
        using pull_all_step [of g] by simp
    next
      case False
      then have ge: "?c \<le> ?r" by simp
      then have r': "targetSize ?g' - generated ?g' = ?r - ?c" by (simp add: min_def)
      have d: "?r div ?c = Suc ((?r - ?c) div ?c)" using ge pos by (simp add: le_div_geq)
      have m: "?r mod ?c = (?r - ?c) mod ?c" using ge by (simp add: le_mod_geq)
      have "pull_all ?g' = Some
         (replicate ((?r - ?c) div ?c) (chunk g) @
          (if (?r - ?c) mod ?c = 0 then [] else [take ((?r - ?c) mod ?c) (chunk g)]))"
        using IH unfolding r' by simp
      moreover have "take ?r (chunk g) = chunk g" using ge by simp
      ultimately show ?thesis
        using pull_all_step [OF \<open>generated g < targetSize g\<close>] by (simp add: d m)
    qed
  qed
qed

lemma concat_replicate_nth:
  "i < n * length xs \<Longrightarrow> concat (replicate n xs) ! i = xs ! (i mod length xs)"
proof (induction n arbitrary: i)
  case 0
  then show ?case by simp
next
  case (Suc n)
  show ?case
  proof (cases "i < length xs")
    case True
    then show ?thesis by (simp add: nth_append)
  next
    case False
    then have "i - length xs < n * length xs" using Suc.prems by simp
    from Suc.IH [OF this] False show ?thesis
      by (simp add: nth_append le_mod_geq)
  qed
qed

lemma length_concat_replicate: "length (concat (replicate n xs)) = n * length xs"
  by (induction n) simp_all

lemma chunks_concat:
  assumes "m < length xs"
  shows "concat (replicate n xs @ (if m = 0 then [] else [take m xs]))
         = take (n * length xs + m) (concat (replicate (Suc n) xs))"
proof -
  have "replicate (Suc n) xs = replicate n xs @ [xs]"
    by (simp add: replicate_append_same)
  then have "concat (replicate (Suc n) xs) = concat (replicate n xs) @ xs"
    by (simp del: replicate_Suc)
  then show ?thesis using assms by (simp add: length_concat_replicate)
qed

lemma for_fill_eq:
  "length buffer = sz \<Longrightarrow> i \<le> sz \<Longrightarrow>
     for_fill f i sz buffer = take i buffer @ map f [i..<sz]"
proof (induction f i sz buffer rule: for_fill.induct)
  case (1 f i sz buffer)
  show ?case
  proof (cases "i < sz")
    case True
    with 1 have "for_fill f (i + 1) sz (buffer[i := f i])
        = take (i + 1) (buffer[i := f i]) @ map f [i + 1..<sz]"
      by simp
    moreover have "take (i + 1) (buffer[i := f i]) = take i buffer @ [f i]"
      using True 1(2) by (simp add: take_Suc_conv_app_nth)
    moreover have "[i..<sz] = i # [i + 1..<sz]" using True by (simp add: upt_conv_Cons)
    ultimately show ?thesis using True by (subst for_fill.simps) simp
  next
    case False
    with 1 show ?thesis by (subst for_fill.simps) simp
  qed
qed

lemma for_fill_0: "for_fill f 0 sz (map h [0..<sz]) = map f [0..<sz]"
  using for_fill_eq [of "map h [0..<sz]" sz 0 f] by simp

lemma ceiling_times_ge:
  fixes a l :: nat
  assumes "0 < l"
  shows "a \<le> nat \<lceil>of_nat a / (of_nat l :: rat)\<rceil> * l"
proof -
  let ?q = "of_nat a / (of_nat l :: rat)"
  have "0 \<le> ?q" by simp
  then have nn: "0 \<le> \<lceil>?q\<rceil>" using ceiling_mono [of 0 ?q] by (simp del: zero_le_ceiling)
  have "(of_nat a :: rat) = ?q * of_nat l" using assms by simp
  also have "\<dots> \<le> of_int \<lceil>?q\<rceil> * of_nat l"
    by (rule mult_right_mono) simp_all
  also have "(of_int \<lceil>?q\<rceil> :: rat) = of_nat (nat \<lceil>?q\<rceil>)" using nn by simp
  finally have "(of_nat a :: rat) \<le> of_nat (nat \<lceil>?q\<rceil> * l)" by simp
  then show ?thesis by (simp only: of_nat_le_iff)
qed

section \<open>The prebuilt chunks\<close>

lemma length_createBinaryPattern [simp]: "length (createBinaryPattern e sz p) = sz"
  by (simp add: createBinaryPattern_def Let_def for_fill_0)

lemma createBinaryPattern_random:
  "createBinaryPattern e sz (Some (js ''random''))
     = map (\<lambda>i. of_int \<lfloor>math_random e i * 256\<rfloor>) [0..<sz]"
  by (simp add: createBinaryPattern_def Let_def for_fill_0)

lemma pattern_names_distinct:
  "js ''random'' \<noteq> js ''zeros''" "js ''random'' \<noteq> js ''ones''" "js ''zeros'' \<noteq> js ''ones''"
  by (simp_all add: js_def)

lemma sequence_nth:
  assumes "k < 16"
  shows "sequence ! k = of_nat k"
proof -
  have "sequence = map of_nat [0..<16]"
    by (simp add: sequence_def upt_rec)
  moreover have "map of_nat [0..<16] ! k = (of_nat ([0..<16] ! k) :: byte)"
    using assms by (intro nth_map) simp
  moreover have "[0..<16] ! k = 0 + k"
    using assms by (intro nth_upt) simp
  ultimately show ?thesis by simp
qed

lemma sequence_fill:
  "for_fill (\<lambda>i. sequence ! (i mod length sequence)) 0 sz (map h [0..<sz])
     = map (\<lambda>i. of_nat (i mod 16)) [0..<sz]"
proof -
  have len: "length sequence = 16" by (simp add: sequence_def)
  have "map (\<lambda>i. sequence ! (i mod length sequence)) [0..<sz]
      = map (\<lambda>i. of_nat (i mod 16)) [0..<sz]"
    by (rule map_cong [OF refl]) (simp only: len sequence_nth mod_less_divisor zero_less_numeral)
  then show ?thesis by (simp only: for_fill_0)
qed

lemma createBinaryPattern_sequence:
  assumes "p \<noteq> Some (js ''random'')" "p \<noteq> Some (js ''zeros'')" "p \<noteq> Some (js ''ones'')"
  shows "createBinaryPattern e sz p = map (\<lambda>i. of_nat (i mod 16)) [0..<sz]"
  using assms by (simp only: createBinaryPattern_def Let_def if_False sequence_fill)

lemma createBinaryPattern_zeros:
  "createBinaryPattern e sz (Some (js ''zeros'')) = replicate sz 0"
  by (simp only: createBinaryPattern_def Let_def pattern_names_distinct [symmetric] option.inject
        if_True if_False map_replicate_const length_map length_upt diff_zero refl)

lemma createBinaryPattern_ones:
  "createBinaryPattern e sz (Some (js ''ones'')) = replicate sz 255"
  by (simp only: createBinaryPattern_def Let_def pattern_names_distinct [symmetric] option.inject
        if_True if_False map_replicate_const length_map length_upt diff_zero refl)

lemma createBinaryPattern_env:
  "p \<noteq> Some (js ''random'') \<Longrightarrow> createBinaryPattern e1 sz p = createBinaryPattern e2 sz p"
  by (cases "p = Some (js ''zeros'')"; cases "p = Some (js ''ones'')")
     (simp_all add: createBinaryPattern_zeros createBinaryPattern_ones createBinaryPattern_sequence)

lemma num_or_pos [simp]: "0 < d \<Longrightarrow> 0 < num_or c d"
  by (simp add: num_or_def split: option.split)

lemma num_or_Some [simp]: "0 < c \<Longrightarrow> num_or (Some c) d = c"
  by (simp add: num_or_def)

lemma binary_fields [simp]:
  "targetSize (BinaryDataGenerator e t p c) = t"
  "generated (BinaryDataGenerator e t p c) = 0"
  "chunkSize (BinaryDataGenerator e t p c) = num_or c 65536"
  "chunk (BinaryDataGenerator e t p c) = createBinaryPattern e (num_or c 65536) p"
  by (simp_all add: BinaryDataGenerator_def Let_def)

lemma text_base_nonempty [simp]: "text_base p \<noteq> []" "0 < length (text_base p)"
  by (simp_all add: text_base_def)

lemma text_fields [simp]:
  "targetSize (TextDataGenerator t p c) = t"
  "generated (TextDataGenerator t p c) = 0"
  "chunkSize (TextDataGenerator t p c) = num_or c 65536"
  "basePattern (TextDataGenerator t p c) = text_base p"
  by (simp_all add: TextDataGenerator_def Let_def text_base_def)

lemma repeat_covers:
  assumes "b \<noteq> []"
  shows "sz \<le> length (js_repeat b (nat \<lceil>of_nat sz / (of_nat (length b) :: rat)\<rceil>))"
proof -
  from assms have "0 < length b" by simp
  then have "sz \<le> nat \<lceil>of_nat sz / (of_nat (length b) :: rat)\<rceil> * length b"
    by (rule ceiling_times_ge)
  then show ?thesis
    by (simp only: js_repeat_def length_concat_replicate)
qed

lemma js_repeat_nth:
  "j < length (js_repeat b n) \<Longrightarrow> js_repeat b n ! j = b ! (j mod length b)"
  by (simp only: js_repeat_def length_concat_replicate concat_replicate_nth)

lemma text_chunk:
  "chunk (TextDataGenerator t p c) =
     take (num_or c 65536)
       (js_repeat (text_base p)
          (nat \<lceil>of_nat (num_or c 65536) / (of_nat (length (text_base p)) :: rat)\<rceil>))"
  by (simp add: TextDataGenerator_def Let_def text_base_def)

lemma length_text_chunk [simp]:
  "length (chunk (TextDataGenerator t p c)) = num_or c 65536"
  using repeat_covers [of "text_base p" "num_or c 65536"]
  by (simp only: text_chunk length_take text_base_nonempty min_def split: if_splits) simp

lemma text_chunk_nth:
  assumes "j < num_or c 65536"
  shows "chunk (TextDataGenerator t p c) ! j = text_base p ! (j mod length (text_base p))"
proof -
  let ?r = "js_repeat (text_base p)
     (nat \<lceil>of_nat (num_or c 65536) / (of_nat (length (text_base p)) :: rat)\<rceil>)"
  have "num_or c 65536 \<le> length ?r"
    by (rule repeat_covers) simp
  with assms have "j < length ?r" by (rule less_le_trans)
  then have "?r ! j = text_base p ! (j mod length (text_base p))"
    by (rule js_repeat_nth)
  with assms show ?thesis by (simp only: text_chunk nth_take)
qed

section \<open>What a fresh generator yields\<close>

lemma pull_all_fresh:
  assumes "chunk g \<noteq> []" and "generated g = 0"
  shows "pull_all g = Some
     (replicate (targetSize g div length (chunk g)) (chunk g) @
      (if targetSize g mod length (chunk g) = 0 then []
       else [take (targetSize g mod length (chunk g)) (chunk g)]))"
  using pull_all_closed [OF assms(1)] assms(2) by simp



lemma ceiling_div_nat:
  fixes t c :: nat
  assumes "0 < c"
  shows "nat \<lceil>of_nat t / (of_nat c :: rat)\<rceil> = t div c + (if t mod c = 0 then 0 else 1)"
proof -
  have "\<lceil>of_nat t / (of_nat c :: rat)\<rceil> = \<lceil>of_int (int t) / (of_int (int c) :: rat)\<rceil>"
    by simp
  also have "\<dots> = - (- int t div int c)"
    by (rule ceiling_divide_eq_div)
  also have "\<dots> = int (t div c) + (if t mod c = 0 then 0 else 1)"
  proof (cases "t mod c = 0")
    case True
    then have "int t mod int c = 0" by (simp only: zmod_int [symmetric] of_nat_0)
    with assms True show ?thesis by (simp add: zdiv_zminus1_eq_if zdiv_int)
  next
    case False
    then have "int t mod int c \<noteq> 0" by (simp only: zmod_int [symmetric] of_nat_eq_0_iff not_False_eq_True)
    with assms False show ?thesis by (simp add: zdiv_zminus1_eq_if zdiv_int)
  qed
  finally have "\<lceil>of_nat t / (of_nat c :: rat)\<rceil> = int (t div c + (if t mod c = 0 then 0 else 1))"
    by simp
  then show ?thesis by (simp only: nat_int)
qed

lemma emitted_fresh:
  assumes "chunk g \<noteq> []" and "generated g = 0"
  shows "emitted g = Some (take (targetSize g)
     (concat (replicate (Suc (targetSize g div length (chunk g))) (chunk g))))"
proof -
  let ?c = "length (chunk g)" and ?t = "targetSize g"
  from assms(1) have "?t mod ?c < ?c" by simp
  from chunks_concat [OF this, of "?t div ?c"]
  show ?thesis
    unfolding emitted_def pull_all_fresh [OF assms] by (simp del: replicate_Suc)
qed

lemma emitted_nth:
  assumes "chunk g \<noteq> []" and "generated g = 0"
  shows "\<exists>out. emitted g = Some out \<and> length out = targetSize g \<and>
     (\<forall>i<targetSize g. out ! i = chunk g ! (i mod length (chunk g)))"
proof -
  let ?c = "length (chunk g)" and ?t = "targetSize g"
  let ?all = "concat (replicate (Suc (?t div ?c)) (chunk g))"
  from assms(1) have pos: "0 < ?c" by simp
  have "?t < ?c * (?t div ?c) + ?c"
    using pos by (metis add.commute mod_less_divisor mult_div_mod_eq nat_add_left_cancel_less)
  then have len: "?t < Suc (?t div ?c) * ?c" by (simp add: mult.commute)
  then have "length (take ?t ?all) = ?t"
    by (simp add: length_concat_replicate del: replicate_Suc)
  moreover have "take ?t ?all ! i = chunk g ! (i mod ?c)" if "i < ?t" for i
  proof -
    from that len have "i < Suc (?t div ?c) * ?c" by simp
    then have "?all ! i = chunk g ! (i mod ?c)" by (rule concat_replicate_nth)
    with that show ?thesis by (simp only: nth_take)
  qed
  ultimately show ?thesis
    using emitted_fresh [OF assms] by blast
qed

lemma num_or_nonzero [simp]: "d \<noteq> 0 \<Longrightarrow> num_or c d \<noteq> 0"
  by (simp add: num_or_def split: option.split)

lemma binary_chunk_nonempty: "chunk (BinaryDataGenerator e t p c) \<noteq> []"
proof
  assume "chunk (BinaryDataGenerator e t p c) = []"
  then have "length (chunk (BinaryDataGenerator e t p c)) = length ([] :: byte list)"
    by (rule arg_cong)
  then show False by simp
qed

lemma text_chunk_nonempty: "chunk (TextDataGenerator t p c) \<noteq> []"
proof
  assume "chunk (TextDataGenerator t p c) = []"
  then have "length (chunk (TextDataGenerator t p c)) = length ([] :: jsstring)"
    by (rule arg_cong)
  then show False by simp
qed

lemma fresh_chunk_shape:
  assumes "chunk g \<noteq> []" and "generated g = 0"
  shows "\<exists>cs. pull_all g = Some cs
     \<and> length cs = nat \<lceil>of_nat (targetSize g) / (of_nat (length (chunk g)) :: rat)\<rceil>
     \<and> (\<forall>k. Suc k < length cs \<longrightarrow> cs ! k = chunk g)
     \<and> (cs \<noteq> [] \<longrightarrow> last cs =
           take (if targetSize g mod length (chunk g) = 0 then length (chunk g)
                 else targetSize g mod length (chunk g)) (chunk g))"
proof -
  let ?xs = "chunk g" and ?t = "targetSize g"
  let ?n = "?t div length ?xs" and ?m = "?t mod length ?xs"
  let ?cs = "replicate ?n ?xs @ (if ?m = 0 then [] else [take ?m ?xs])"
  from assms(1) have pos: "0 < length ?xs" by simp
  have "length ?cs = ?n + (if ?m = 0 then 0 else 1)" by simp
  then have len: "length ?cs = nat \<lceil>of_nat ?t / (of_nat (length ?xs) :: rat)\<rceil>"
    by (simp only: ceiling_div_nat [OF pos])
  have nth: "?cs ! k = ?xs" if "Suc k < length ?cs" for k
  proof -
    from that have "k < ?n" by (simp split: if_splits)
    then show ?thesis by (simp add: nth_append)
  qed
  have lst: "last ?cs = take (if ?m = 0 then length ?xs else ?m) ?xs" if "?cs \<noteq> []"
  proof (cases "?m = 0")
    case True
    with that have "0 < ?n" by simp
    with True show ?thesis by simp
  next
    case False
    then show ?thesis by simp
  qed
  from pull_all_fresh [OF assms] len nth lst show ?thesis by blast
qed

lemma fresh_prefixes:
  assumes "chunk g \<noteq> []" and "generated g = 0"
  shows "\<exists>cs. pull_all g = Some cs
     \<and> (\<forall>d\<in>set cs. d = take (length d) (chunk g))"
proof -
  let ?xs = "chunk g" and ?t = "targetSize g"
  let ?cs = "replicate (?t div length ?xs) ?xs
     @ (if ?t mod length ?xs = 0 then [] else [take (?t mod length ?xs) ?xs])"
  from assms(1) have "?t mod length ?xs < length ?xs" by simp
  then have "min (length ?xs) (?t mod length ?xs) = ?t mod length ?xs" by simp
  then have "\<forall>d\<in>set ?cs. d = take (length d) ?xs" by auto
  with pull_all_fresh [OF assms] show ?thesis by blast
qed

lemma emitted_periodic:
  assumes "chunk g \<noteq> []" and "generated g = 0"
  shows "\<exists>out. emitted g = Some out \<and> length out = targetSize g
     \<and> (\<forall>i. i + length (chunk g) < targetSize g \<longrightarrow> out ! i = out ! (i + length (chunk g)))"
proof -
  from emitted_nth [OF assms] obtain out where out: "emitted g = Some out"
    "length out = targetSize g"
    "\<And>i. i < targetSize g \<Longrightarrow> out ! i = chunk g ! (i mod length (chunk g))"
    by blast
  have "out ! i = out ! (i + length (chunk g))" if "i + length (chunk g) < targetSize g" for i
  proof -
    from that have "i < targetSize g" by simp
    with that out(3) show ?thesis by simp
  qed
  with out(1,2) show ?thesis by blast
qed




lemma default_pattern_ascii: "list_all (\<lambda>u. u < 0x80) (text_base None)"
  by (simp add: text_base_def str_or_def default_pattern_def js_def)


section \<open>Claims about chunking\<close>



text \<open>
  Claim C2. For every target size and every chunk size greater than 0, the generator yields
  exactly \<open>ceil(targetBytes / chunkBytes)\<close> chunks; every chunk but the last has length
  \<open>chunkBytes\<close>, and the last one has length \<open>targetBytes mod chunkBytes\<close> when that
  remainder is not zero and \<open>chunkBytes\<close> otherwise. Lengths of text chunks are string
  lengths, as in C1.
\<close>

theorem chunk_count_and_lengths:
  assumes "0 < c"
  shows "(\<exists>cs. pull_all (BinaryDataGenerator e t p (Some c)) = Some cs
            \<and> length cs = nat \<lceil>of_nat t / (of_nat c :: rat)\<rceil>
            \<and> (\<forall>k. Suc k < length cs \<longrightarrow> length (cs ! k) = c)
            \<and> (cs \<noteq> [] \<longrightarrow> length (last cs) = (if t mod c = 0 then c else t mod c)))
       \<and> (\<exists>cs. pull_all (TextDataGenerator t q (Some c)) = Some cs
            \<and> length cs = nat \<lceil>of_nat t / (of_nat c :: rat)\<rceil>
            \<and> (\<forall>k. Suc k < length cs \<longrightarrow> length (cs ! k) = c)
            \<and> (cs \<noteq> [] \<longrightarrow> length (last cs) = (if t mod c = 0 then c else t mod c)))"
proof
  let ?g = "BinaryDataGenerator e t p (Some c)"
  from fresh_chunk_shape [OF binary_chunk_nonempty, of e t p "Some c"] assms
  obtain cs where cs: "pull_all ?g = Some cs"
    "length cs = nat \<lceil>of_nat t / (of_nat c :: rat)\<rceil>"
    "\<And>k. Suc k < length cs \<Longrightarrow> cs ! k = chunk ?g"
    "cs \<noteq> [] \<Longrightarrow> last cs = take (if t mod c = 0 then c else t mod c) (chunk ?g)"
    by auto
  have "length (chunk ?g) = c" using assms by simp
  moreover have "t mod c \<le> c" using assms by simp
  ultimately have "length (cs ! k) = c" if "Suc k < length cs" for k
    using cs(3) [OF that] by simp
  moreover have "length (last cs) = (if t mod c = 0 then c else t mod c)" if "cs \<noteq> []"
    using cs(4) [OF that] \<open>length (chunk ?g) = c\<close> \<open>t mod c \<le> c\<close> by simp
  ultimately show "\<exists>cs. pull_all ?g = Some cs
            \<and> length cs = nat \<lceil>of_nat t / (of_nat c :: rat)\<rceil>
            \<and> (\<forall>k. Suc k < length cs \<longrightarrow> length (cs ! k) = c)
            \<and> (cs \<noteq> [] \<longrightarrow> length (last cs) = (if t mod c = 0 then c else t mod c))"
    using cs(1,2) by blast
next
  let ?g = "TextDataGenerator t q (Some c)"
  from fresh_chunk_shape [OF text_chunk_nonempty, of t q "Some c"] assms
  obtain cs where cs: "pull_all ?g = Some cs"
    "length cs = nat \<lceil>of_nat t / (of_nat c :: rat)\<rceil>"
    "\<And>k. Suc k < length cs \<Longrightarrow> cs ! k = chunk ?g"
    "cs \<noteq> [] \<Longrightarrow> last cs = take (if t mod c = 0 then c else t mod c) (chunk ?g)"
    by auto
  have "length (chunk ?g) = c" using assms by simp
  moreover have "t mod c \<le> c" using assms by simp
  ultimately have "length (cs ! k) = c" if "Suc k < length cs" for k
    using cs(3) [OF that] by simp
  moreover have "length (last cs) = (if t mod c = 0 then c else t mod c)" if "cs \<noteq> []"
    using cs(4) [OF that] \<open>length (chunk ?g) = c\<close> \<open>t mod c \<le> c\<close> by simp
  ultimately show "\<exists>cs. pull_all ?g = Some cs
            \<and> length cs = nat \<lceil>of_nat t / (of_nat c :: rat)\<rceil>
            \<and> (\<forall>k. Suc k < length cs \<longrightarrow> length (cs ! k) = c)
            \<and> (cs \<noteq> [] \<longrightarrow> length (last cs) = (if t mod c = 0 then c else t mod c))"
    using cs(1,2) by blast
qed

theorem chunk_count_and_lengths_witness:
  "(0::nat) < 4
   \<and> (\<exists>cs. pull_all (BinaryDataGenerator quiet_env 10 None (Some 4)) = Some cs
          \<and> length cs = 3 \<and> length (cs ! 0) = 4 \<and> length (cs ! 1) = 4
          \<and> length (last cs) = 2)"
proof -
  from chunk_count_and_lengths [of 4 quiet_env 10 None None]
  obtain cs where cs: "pull_all (BinaryDataGenerator quiet_env 10 None (Some 4)) = Some cs"
    "length cs = nat \<lceil>of_nat 10 / (of_nat 4 :: rat)\<rceil>"
    "\<And>k. Suc k < length cs \<Longrightarrow> length (cs ! k) = 4"
    "cs \<noteq> [] \<Longrightarrow> length (last cs) = (if (10::nat) mod 4 = 0 then 4 else 10 mod 4)"
    by auto
  have "nat \<lceil>of_nat 10 / (of_nat 4 :: rat)\<rceil> = 3"
    using ceiling_div_nat [of 4 10] by simp
  with cs(2) have len: "length cs = 3" by simp
  then have "cs \<noteq> []" by auto
  from cs(4) [OF this] have "length (last cs) = 2" by simp
  moreover from cs(3) [of 0] cs(3) [of 1] len have "length (cs ! 0) = 4" "length (cs ! 1) = 4"
    by simp_all
  ultimately show ?thesis using cs(1) len by auto
qed

section \<open>Claims about the bytes of a binary run\<close>

lemma binary_emitted:
  "\<exists>out. emitted (BinaryDataGenerator e t p c) = Some out \<and> length out = t
     \<and> (\<forall>i<t. out ! i = createBinaryPattern e (num_or c 65536) p ! (i mod num_or c 65536))"
  using emitted_nth [OF binary_chunk_nonempty, of e t p c] by simp

text \<open>
  Claim C3, amended. With the sequential fill (any pattern name other than \<open>random\<close>,
  \<open>zeros\<close> and \<open>ones\<close>) the run yields exactly the target number of bytes, and the byte at
  absolute offset \<open>i\<close> is \<open>(i mod chunkBytes) mod 16\<close>, where \<open>chunkBytes\<close> is the chunk size in
  use: the ramp restarts at 0 with every chunk. The byte is \<open>i mod 16\<close> whenever the chunk
  size is a multiple of 16, as the default 65536 is, and at every offset inside the first
  chunk.
\<close>

theorem sequential_bytes_restart_every_chunk:
  assumes "p \<noteq> Some (js ''random'')" "p \<noteq> Some (js ''zeros'')" "p \<noteq> Some (js ''ones'')"
  shows "\<exists>out. emitted (BinaryDataGenerator e t p cs) = Some out \<and> length out = t
     \<and> (\<forall>i<t. out ! i = of_nat (i mod num_or cs 65536 mod 16))
     \<and> (16 dvd num_or cs 65536 \<longrightarrow> (\<forall>i<t. out ! i = of_nat (i mod 16)))
     \<and> (\<forall>i<t. i < num_or cs 65536 \<longrightarrow> out ! i = of_nat (i mod 16))"
proof -
  let ?c = "num_or cs 65536"
  from binary_emitted [of e t p cs] obtain out
    where out: "emitted (BinaryDataGenerator e t p cs) = Some out" "length out = t"
      "\<And>i. i < t \<Longrightarrow> out ! i = createBinaryPattern e ?c p ! (i mod ?c)"
    by blast
  have pos: "0 < ?c" by simp
  have byte: "out ! i = of_nat (i mod ?c mod 16)" if "i < t" for i
  proof -
    have "i mod ?c < ?c" using pos by simp
    then have "map (\<lambda>i. of_nat (i mod 16) :: byte) [0..<?c] ! (i mod ?c) = of_nat (i mod ?c mod 16)"
      by simp
    with out(3) [OF that] show ?thesis
      by (simp only: createBinaryPattern_sequence [OF assms])
  qed
  moreover have "out ! i = of_nat (i mod 16)" if "16 dvd ?c" "i < t" for i
    using byte [OF that(2)] that(1) by (simp add: mod_mod_cancel)
  moreover have "out ! i = of_nat (i mod 16)" if "i < t" "i < ?c" for i
    using byte [OF that(1)] that(2) by simp
  ultimately show ?thesis using out(1,2) by blast
qed

theorem sequential_bytes_restart_every_chunk_witness:
  "(None :: jsstring option) \<noteq> Some (js ''random'') \<and> (None :: jsstring option) \<noteq> Some (js ''zeros'')
   \<and> (None :: jsstring option) \<noteq> Some (js ''ones'')
   \<and> (\<exists>out. emitted (BinaryDataGenerator quiet_env 20 None (Some 10)) = Some out
          \<and> length out = 20 \<and> out ! 10 = 0 \<and> out ! 9 = 9)
   \<and> (16::nat) dvd 32
   \<and> (\<exists>out. emitted (BinaryDataGenerator quiet_env 40 None (Some 32)) = Some out
          \<and> out ! 35 = 3)"
proof -
  from sequential_bytes_restart_every_chunk [of None quiet_env 20 "Some 10"]
  obtain out where "emitted (BinaryDataGenerator quiet_env 20 None (Some 10)) = Some out"
    "length out = 20" "\<forall>i<20. out ! i = of_nat (i mod 10 mod 16)"
    by auto
  then have a: "\<exists>out. emitted (BinaryDataGenerator quiet_env 20 None (Some 10)) = Some out
          \<and> length out = 20 \<and> out ! 10 = 0 \<and> out ! 9 = 9"
    by auto
  from sequential_bytes_restart_every_chunk [of None quiet_env 40 "Some 32"]
  obtain out where "emitted (BinaryDataGenerator quiet_env 40 None (Some 32)) = Some out"
    "16 dvd (32::nat) \<longrightarrow> (\<forall>i<40. out ! i = of_nat (i mod 16))"
    by auto
  then have "\<exists>out. emitted (BinaryDataGenerator quiet_env 40 None (Some 32)) = Some out
          \<and> out ! 35 = 3"
    by auto
  with a show ?thesis by simp
qed

text \<open>
  Claim C3 as stated fails: with a target of 11 bytes and a chunk size of 10 the byte at
  offset 10 is 0, the first byte of the second chunk, and not \<open>10 mod 16\<close>.
\<close>

theorem sequential_offset_counterexample:
  "emitted (BinaryDataGenerator quiet_env 11 None (Some 10))
     = Some [0, 1, 2, 3, 4, 5, 6, 7, 8, 9, 0]
   \<and> [0, 1, 2, 3, 4, 5, 6, 7, 8, 9, 0 :: byte] ! 10 \<noteq> of_nat (10 mod 16)"
  by (simp add: emitted_fresh binary_chunk_nonempty createBinaryPattern_sequence upt_rec)

text \<open>
  Claim C9. With the random fill the buffer is filled once, at construction, from the first
  \<open>chunkBytes\<close> calls of \<open>Math.random()\<close>; every chunk yielded is a prefix of that one
  buffer, so the output repeats with period \<open>chunkBytes\<close>: the bytes at offsets \<open>i\<close> and
  \<open>i + chunkBytes\<close> are equal whenever both offsets are below the target size.
\<close>

theorem random_chunk_reused:
  assumes "0 < c"
  shows "\<exists>cs out. pull_all (BinaryDataGenerator e t (Some (js ''random'')) (Some c)) = Some cs
     \<and> (\<forall>d\<in>set cs. d = take (length d) (map (\<lambda>i. of_int \<lfloor>math_random e i * 256\<rfloor>) [0..<c]))
     \<and> emitted (BinaryDataGenerator e t (Some (js ''random'')) (Some c)) = Some out
     \<and> length out = t
     \<and> (\<forall>i. i + c < t \<longrightarrow> out ! i = out ! (i + c))"
proof -
  let ?g = "BinaryDataGenerator e t (Some (js ''random'')) (Some c)"
  have gen: "generated ?g = 0" by simp
  have chunk: "chunk ?g = map (\<lambda>i. of_int \<lfloor>math_random e i * 256\<rfloor>) [0..<c]"
    using assms by (simp add: createBinaryPattern_random)
  have len: "length (chunk ?g) = c" using assms by simp
  from fresh_prefixes [OF binary_chunk_nonempty gen]
  obtain cs where "pull_all ?g = Some cs" "\<forall>d\<in>set cs. d = take (length d) (chunk ?g)"
    by blast
  moreover from emitted_periodic [OF binary_chunk_nonempty gen]
  obtain out where "emitted ?g = Some out" "length out = t"
    "\<forall>i. i + c < t \<longrightarrow> out ! i = out ! (i + c)"
    unfolding len by auto
  ultimately show ?thesis unfolding chunk by blast
qed

theorem random_chunk_reused_witness:
  "(0::nat) < 4 \<and>
   (\<exists>cs out. pull_all (BinaryDataGenerator quiet_env 10 (Some (js ''random'')) (Some 4)) = Some cs
     \<and> emitted (BinaryDataGenerator quiet_env 10 (Some (js ''random'')) (Some 4)) = Some out
     \<and> length out = 10 \<and> out ! 1 = out ! 5 \<and> out ! 5 = out ! 9)"
proof -
  from random_chunk_reused [of 4 quiet_env 10]
  obtain cs out where "pull_all (BinaryDataGenerator quiet_env 10 (Some (js ''random'')) (Some 4)) = Some cs"
     "emitted (BinaryDataGenerator quiet_env 10 (Some (js ''random'')) (Some 4)) = Some out"
     "length out = 10" "\<forall>i. i + 4 < 10 \<longrightarrow> out ! i = out ! (i + 4)"
    by auto
  moreover from this(4) have "out ! 1 = out ! 5" "out ! 5 = out ! 9"
    by simp_all
  ultimately show ?thesis by auto
qed

section \<open>The stream of a run\<close>

lemma flow_end:
  "targetSize g \<le> generated g \<Longrightarrow> flow enc l g tr w = Some (tr, w)"
  by (subst flow.simps) (simp add: gen_read_def)

lemma flow_step:
  assumes "generated g < targetSize g"
  shows "flow enc l g tr w =
     flow enc l
       (g\<lparr>generated := generated g + min (targetSize g - generated g) (length (chunk g))\<rparr>)
       (l tr (enc (take (targetSize g - generated g) (chunk g))))
       (w @ enc (take (targetSize g - generated g) (chunk g)))"
  using assms by (subst flow.simps) (simp add: gen_read_def Let_def min_def)

lemma flow_closed:
  assumes "chunk g \<noteq> []"
  shows "\<exists>cs. pull_all g = Some cs
     \<and> flow enc l g tr w = Some (foldl l tr (map enc cs), w @ concat (map enc cs))"
  using assms
proof (induction "targetSize g - generated g" arbitrary: g tr w rule: less_induct)
  case less
  show ?case
  proof (cases "generated g < targetSize g")
    case False
    then show ?thesis by (simp add: gen_read_end flow_end)
  next
    case True
    let ?data = "take (targetSize g - generated g) (chunk g)"
    let ?g' = "g\<lparr>generated := generated g
        + min (targetSize g - generated g) (length (chunk g))\<rparr>"
    from less.prems have pos: "0 < length (chunk g)" by simp
    have dec: "targetSize ?g' - generated ?g' < targetSize g - generated g"
      using remaining_decreases [OF True pos] by simp
    have ne: "chunk ?g' \<noteq> []" using less.prems by simp
    from less.hyps [OF dec ne, of "l tr (enc ?data)" "w @ enc ?data"]
    obtain cs where cs: "pull_all ?g' = Some cs"
      "flow enc l ?g' (l tr (enc ?data)) (w @ enc ?data)
         = Some (foldl l (l tr (enc ?data)) (map enc cs), (w @ enc ?data) @ concat (map enc cs))"
      by blast
    from cs(1) have "pull_all g = Some (?data # cs)"
      by (simp add: pull_all_step [OF True])
    moreover from cs(2) have "flow enc l g tr w
         = Some (foldl l tr (map enc (?data # cs)), w @ concat (map enc (?data # cs)))"
      by (simp add: flow_step [OF True])
    ultimately show ?thesis by blast
  qed
qed

lemma flow_written:
  assumes "chunk g \<noteq> []"
  shows "\<exists>bs tr'. encoded enc g = Some bs \<and> flow enc l g tr w = Some (tr', w @ bs)"
  using flow_closed [OF assms, of enc l tr w] by (auto simp: encoded_def)

lemma generateData_invalid_size:
  "parseSize sz = Inl err \<Longrightarrow>
     generateData e ty sz out opts
       = Some \<lparr>thrown = Some err, mkdir_called = False, written_file = None, console = []\<rparr>"
  by (simp add: generateData_def)

lemma generateData_unknown_type:
  "parseSize sz = Inr t \<Longrightarrow> ty \<noteq> js ''text'' \<Longrightarrow> ty \<noteq> js ''binary'' \<Longrightarrow>
     generateData e ty sz out opts
       = Some \<lparr>thrown = Some (UnknownType ty), mkdir_called = True, written_file = None,
               console = []\<rparr>"
  by (simp add: generateData_def)

lemma generateData_text:
  assumes "parseSize sz = Inr t"
  shows "\<exists>bs r. encoded utf8_encode (TextDataGenerator t (opt_pattern opts) (opt_chunkSize opts))
            = Some bs
     \<and> generateData e (js ''text'') sz out opts = Some r
     \<and> thrown r = None \<and> written_file r = Some (out, bs)"
proof -
  let ?g = "TextDataGenerator t (opt_pattern opts) (opt_chunkSize opts)"
  let ?tr = "\<lparr>lastProgress = 0, bytesWritten = 0, clock_calls = 1, stdout_lines = []\<rparr>"
  from flow_written [OF text_chunk_nonempty, of utf8_encode t "opt_pattern opts"
      "opt_chunkSize opts" "on_data e (date_now e 0) t" ?tr "[]"]
  obtain bs tr' where "encoded utf8_encode ?g = Some bs"
    "flow utf8_encode (on_data e (date_now e 0) t) ?g ?tr [] = Some (tr', bs)"
    by auto
  then show ?thesis using assms
    by (simp add: generateData_def Let_def finished_def)
qed

lemma text_binary_distinct: "js ''binary'' \<noteq> js ''text''"
  by (simp add: js_def)

lemma generateData_binary:
  assumes "parseSize sz = Inr t"
  shows "\<exists>bs r. emitted (BinaryDataGenerator e t (opt_binaryPattern opts) (opt_chunkSize opts))
            = Some bs
     \<and> generateData e (js ''binary'') sz out opts = Some r
     \<and> thrown r = None \<and> written_file r = Some (out, bs)"
proof -
  let ?g = "BinaryDataGenerator e t (opt_binaryPattern opts) (opt_chunkSize opts)"
  let ?tr = "\<lparr>lastProgress = 0, bytesWritten = 0, clock_calls = 1, stdout_lines = []\<rparr>"
  from flow_written [OF binary_chunk_nonempty, of "\<lambda>b. b" e t "opt_binaryPattern opts"
      "opt_chunkSize opts" "on_data e (date_now e 0) t" ?tr "[]"]
  obtain bs tr' where "encoded (\<lambda>b. b) ?g = Some bs"
    "flow (\<lambda>b. b) (on_data e (date_now e 0) t) ?g ?tr [] = Some (tr', bs)"
    by auto
  then show ?thesis using assms
    by (simp add: generateData_def Let_def finished_def text_binary_distinct encoded_def emitted_def)
qed

section \<open>Concrete runs\<close>

lemmas size_eval =
  parseSize_def size_match_def js_def is_digit_def is_space_def to_upper_def unit_names_def
  multipliers_def parseFloat_def decimal_def digit_value_def

lemma parse_10: "parseSize (js ''10'') = Inr 10"
  by (simp add: size_eval)

lemma parse_64KB: "parseSize (js ''64KB'') = Inr 65536"
  by (simp add: size_eval)




lemma take_text_chunk:
  assumes "n \<le> num_or c 65536"
  shows "take n (chunk (TextDataGenerator t p c))
     = map (\<lambda>j. text_base p ! (j mod length (text_base p))) [0..<n]"
proof (rule nth_equalityI)
  show "length (take n (chunk (TextDataGenerator t p c)))
      = length (map (\<lambda>j. text_base p ! (j mod length (text_base p))) [0..<n])"
    using assms by simp
next
  fix i assume "i < length (take n (chunk (TextDataGenerator t p c)))"
  with assms have i: "i < n" "i < num_or c 65536" by simp_all
  from text_chunk_nth [OF i(2), of t p] i(1)
  show "take n (chunk (TextDataGenerator t p c)) ! i
      = map (\<lambda>j. text_base p ! (j mod length (text_base p))) [0..<n] ! i"
    by simp
qed

lemma text_single_chunk:
  assumes "0 < t" and "t < num_or c 65536"
  shows "pull_all (TextDataGenerator t p c)
     = Some [map (\<lambda>j. text_base p ! (j mod length (text_base p))) [0..<t]]"
proof -
  have "take t (chunk (TextDataGenerator t p c))
      = map (\<lambda>j. text_base p ! (j mod length (text_base p))) [0..<t]"
    using assms(2) by (intro take_text_chunk) simp
  moreover have "generated (TextDataGenerator t p c) = 0" by simp
  ultimately show ?thesis
    using pull_all_fresh [OF text_chunk_nonempty, of t p c] assms by simp
qed

lemma text_AB_10:
  "pull_all (TextDataGenerator 10 (Some (js ''AB'')) (Some 65536))
     = Some [[0x41, 0x42, 0x0A, 0x41, 0x42, 0x0A, 0x41, 0x42, 0x0A, 0x41]]"
proof -
  have "text_base (Some (js ''AB'')) = [0x41, 0x42, 0x0A]"
    by (simp add: text_base_def str_or_def js_def)
  then show ?thesis
    by (simp add: text_single_chunk upt_rec)
qed

lemma text_e_acute_10:
  "pull_all (TextDataGenerator 10 (Some [0xE9]) (Some 65536))
     = Some [[0xE9, 0x0A, 0xE9, 0x0A, 0xE9, 0x0A, 0xE9, 0x0A, 0xE9, 0x0A]]"
proof -
  have "text_base (Some [0xE9]) = [0xE9, 0x0A]"
    by (simp add: text_base_def str_or_def)
  then show ?thesis
    by (simp add: text_single_chunk upt_rec mod_Suc)
qed

text \<open>
  Claim C5, amended. For the text request with a target of 10 bytes and the pattern \<open>AB\<close>
  (default chunk size) the generator yields the single chunk \<open>AB\<close>, line break, \<open>AB\<close>, line
  break, \<open>AB\<close>, line break, \<open>A\<close>, and the file written holds these 10 bytes: the first 10
  bytes of the repetition of the pattern followed by a line break, which the constructor
  appends to every base pattern.
\<close>

theorem text_AB_run:
  "pull_all (TextDataGenerator 10 (Some (js ''AB'')) None)
     = Some [js ''AB'' @ [0x0A] @ js ''AB'' @ [0x0A] @ js ''AB'' @ [0x0A] @ js ''A'']
   \<and> map_option written_file
        (cli_action e \<lparr>cli_type = js ''text'', cli_size = js ''10'', cli_output = out,
           cli_pattern = Some (js ''AB''), cli_binaryPattern = bp, cli_chunkSize = js ''64KB''\<rparr>)
     = Some (Some (out, [0x41, 0x42, 0x0A, 0x41, 0x42, 0x0A, 0x41, 0x42, 0x0A, 0x41]))"
proof
  have "TextDataGenerator 10 (Some (js ''AB'')) None
      = TextDataGenerator 10 (Some (js ''AB'')) (Some 65536)"
    by (simp add: TextDataGenerator_def num_or_def)
  then show "pull_all (TextDataGenerator 10 (Some (js ''AB'')) None)
     = Some [js ''AB'' @ [0x0A] @ js ''AB'' @ [0x0A] @ js ''AB'' @ [0x0A] @ js ''A'']"
    by (simp add: text_AB_10) (simp add: js_def)
next
  let ?opts = "\<lparr>opt_pattern = Some (js ''AB''), opt_binaryPattern = Some bp,
                 opt_chunkSize = Some 65536\<rparr>"
  from generateData_text [OF parse_10, of ?opts e out]
  obtain bs r where
    "encoded utf8_encode (TextDataGenerator 10 (Some (js ''AB'')) (Some 65536)) = Some bs"
    "generateData e (js ''text'') (js ''10'') out ?opts = Some r"
    "written_file r = Some (out, bs)"
    by auto
  moreover from this(1)
  have "bs = [0x41, 0x42, 0x0A, 0x41, 0x42, 0x0A, 0x41, 0x42, 0x0A, 0x41]"
    by (simp add: encoded_def text_AB_10)
  ultimately show "map_option written_file
        (cli_action e \<lparr>cli_type = js ''text'', cli_size = js ''10'', cli_output = out,
           cli_pattern = Some (js ''AB''), cli_binaryPattern = bp, cli_chunkSize = js ''64KB''\<rparr>)
     = Some (Some (out, [0x41, 0x42, 0x0A, 0x41, 0x42, 0x0A, 0x41, 0x42, 0x0A, 0x41]))"
    by (simp add: cli_action_def parse_64KB)
qed

text \<open>
  Claim C5 as stated fails: the bytes of that run are not those of \<open>ABABABABAB\<close>.
\<close>

theorem text_AB_counterexample:
  "encoded utf8_encode (TextDataGenerator 10 (Some (js ''AB'')) (Some 65536))
     \<noteq> Some (utf8_encode (js ''ABABABABAB''))"
  by (simp add: encoded_def text_AB_10) (simp add: js_def)

text \<open>
  Claim C7 says that the output of a text run has exactly the target size in bytes, for any
  pattern. The run of the program with a target of 10 bytes and the pattern U+00E9 (one code
  unit, two bytes in UTF-8) writes 15 bytes: \<open>_read\<close> counts the code units of the string it
  pushes, and the stream stores the string as UTF-8.
\<close>

theorem text_non_ascii_run:
  "map_option written_file
     (cli_action e \<lparr>cli_type = js ''text'', cli_size = js ''10'', cli_output = out,
        cli_pattern = Some [0xE9], cli_binaryPattern = bp, cli_chunkSize = js ''64KB''\<rparr>)
     = Some (Some (out, [0xC3, 0xA9, 0x0A, 0xC3, 0xA9, 0x0A, 0xC3, 0xA9, 0x0A, 0xC3, 0xA9, 0x0A,
                          0xC3, 0xA9, 0x0A]))
   \<and> length [0xC3, 0xA9, 0x0A, 0xC3, 0xA9, 0x0A, 0xC3, 0xA9, 0x0A, 0xC3, 0xA9, 0x0A,
              0xC3, 0xA9, 0x0A :: byte] = 15"
proof -
  let ?opts = "\<lparr>opt_pattern = Some [0xE9], opt_binaryPattern = Some bp,
                 opt_chunkSize = Some 65536\<rparr>"
  from generateData_text [OF parse_10, of ?opts e out]
  obtain bs r where
    "encoded utf8_encode (TextDataGenerator 10 (Some [0xE9]) (Some 65536)) = Some bs"
    "generateData e (js ''text'') (js ''10'') out ?opts = Some r"
    "written_file r = Some (out, bs)"
    by auto
  moreover from this(1)
  have "bs = [0xC3, 0xA9, 0x0A, 0xC3, 0xA9, 0x0A, 0xC3, 0xA9, 0x0A, 0xC3, 0xA9, 0x0A,
              0xC3, 0xA9, 0x0A]"
    by (simp add: encoded_def text_e_acute_10)
  ultimately show ?thesis
    by (simp add: cli_action_def parse_64KB)
qed

section \<open>Claims about whole runs\<close>

lemma BinaryDataGenerator_env:
  "p \<noteq> Some (js ''random'') \<Longrightarrow> BinaryDataGenerator e1 t p c = BinaryDataGenerator e2 t p c"
  by (simp add: BinaryDataGenerator_def Let_def createBinaryPattern_env [of p e1 _ e2])

lemma generateData_written_env:
  assumes "ty = js ''binary'' \<longrightarrow> opt_binaryPattern opts \<noteq> Some (js ''random'')"
  shows "map_option written_file (generateData e1 ty sz out opts)
       = map_option written_file (generateData e2 ty sz out opts)"
proof (cases "parseSize sz")
  case (Inl err)
  then show ?thesis by (simp add: generateData_invalid_size)
next
  case (Inr t)
  consider "ty = js ''text''" | "ty = js ''binary''" | "ty \<noteq> js ''text''" "ty \<noteq> js ''binary''"
    by blast
  then show ?thesis
  proof cases
    case 1
    from generateData_text [OF Inr, of opts e1 out] generateData_text [OF Inr, of opts e2 out]
    show ?thesis unfolding 1 by auto
  next
    case 2
    with assms have "BinaryDataGenerator e1 t (opt_binaryPattern opts) (opt_chunkSize opts)
        = BinaryDataGenerator e2 t (opt_binaryPattern opts) (opt_chunkSize opts)"
      by (intro BinaryDataGenerator_env) simp
    with generateData_binary [OF Inr, of e1 opts out] generateData_binary [OF Inr, of e2 opts out]
    show ?thesis unfolding 2 by auto
  next
    case 3
    then show ?thesis by (simp add: generateData_unknown_type [OF Inr])
  qed
qed

lemma generateData_outcome:
  "\<exists>r. generateData e ty sz out opts = Some r
     \<and> (thrown r \<noteq> None \<longrightarrow> written_file r = None \<and> console r = [])
     \<and> (thrown r = None \<longleftrightarrow>
          (\<exists>t. parseSize sz = Inr t) \<and> (ty = js ''text'' \<or> ty = js ''binary''))
     \<and> (\<forall>t. parseSize sz = Inr t \<and> ty \<noteq> js ''text'' \<and> ty \<noteq> js ''binary''
            \<longrightarrow> thrown r = Some (UnknownType ty))
     \<and> (\<forall>err. parseSize sz = Inl err \<longrightarrow> thrown r = Some err)"
proof (cases "parseSize sz")
  case (Inl err)
  then show ?thesis by (simp add: generateData_invalid_size [OF Inl])
next
  case (Inr t)
  consider "ty = js ''text''" | "ty = js ''binary''" | "ty \<noteq> js ''text''" "ty \<noteq> js ''binary''"
    by blast
  then show ?thesis
  proof cases
    case 1
    from generateData_text [OF Inr, of opts e out] show ?thesis unfolding 1 using Inr by auto
  next
    case 2
    from generateData_binary [OF Inr, of e opts out] show ?thesis unfolding 2 using Inr by auto
  next
    case 3
    then show ?thesis by (simp add: generateData_unknown_type [OF Inr] Inr)
  qed
qed

lemma cli_action_outcome:
  "\<exists>r. cli_action e opts = Some r
     \<and> (thrown r \<noteq> None \<longrightarrow> written_file r = None \<and> console r = [])
     \<and> (thrown r = None \<longleftrightarrow>
          (\<exists>c. parseSize (cli_chunkSize opts) = Inr c) \<and> (\<exists>t. parseSize (cli_size opts) = Inr t)
          \<and> (cli_type opts = js ''text'' \<or> cli_type opts = js ''binary''))
     \<and> (\<forall>c t. parseSize (cli_chunkSize opts) = Inr c \<and> parseSize (cli_size opts) = Inr t
            \<and> cli_type opts \<noteq> js ''text'' \<and> cli_type opts \<noteq> js ''binary''
            \<longrightarrow> thrown r = Some (UnknownType (cli_type opts)))
     \<and> (\<forall>err. parseSize (cli_chunkSize opts) = Inl err \<longrightarrow> thrown r = Some err)
     \<and> (\<forall>c err. parseSize (cli_chunkSize opts) = Inr c \<and> parseSize (cli_size opts) = Inl err
            \<longrightarrow> thrown r = Some err)"
proof (cases "parseSize (cli_chunkSize opts)")
  case (Inl err)
  then show ?thesis by (simp add: cli_action_def)
next
  case (Inr c)
  from generateData_outcome [of e "cli_type opts" "cli_size opts" "cli_output opts"
      "\<lparr>opt_pattern = cli_pattern opts, opt_binaryPattern = Some (cli_binaryPattern opts),
        opt_chunkSize = Some c\<rparr>"]
  show ?thesis by (simp add: cli_action_def Inr)
qed

text \<open>
  Claim C8. A run whose fill is not the random one (a text run, or a binary run with any
  pattern name other than \<open>random\<close>) always finishes, and the file it writes and the error
  it reports are the same in any two environments: they depend neither on
  \<open>Math.random()\<close>, nor on the uninitialised memory of \<open>Buffer.allocUnsafe\<close>, nor on the
  clock, nor on the rounding of the percentage. Progress reporting does not touch the bytes:
  for every environment and every fill, the file written is exactly what the generator
  yields, in order.
\<close>

theorem output_deterministic:
  assumes "cli_type opts = js ''binary'' \<longrightarrow> cli_binaryPattern opts \<noteq> js ''random''"
  shows "(\<exists>r. cli_action e1 opts = Some r)
     \<and> map_option written_file (cli_action e1 opts) = map_option written_file (cli_action e2 opts)
     \<and> map_option thrown (cli_action e1 opts) = map_option thrown (cli_action e2 opts)
     \<and> (\<forall>t. parseSize sz = Inr t \<longrightarrow>
          (\<exists>bs r. encoded utf8_encode (TextDataGenerator t (opt_pattern gopts) (opt_chunkSize gopts))
                     = Some bs
             \<and> generateData e (js ''text'') sz out gopts = Some r
             \<and> written_file r = Some (out, bs))
        \<and> (\<exists>bs r. emitted (BinaryDataGenerator e t (opt_binaryPattern gopts) (opt_chunkSize gopts))
                     = Some bs
             \<and> generateData e (js ''binary'') sz out gopts = Some r
             \<and> written_file r = Some (out, bs)))"
proof (intro conjI allI impI)
  show "\<exists>r. cli_action e1 opts = Some r"
    using cli_action_outcome [of e1 opts] by blast
next
  show "map_option written_file (cli_action e1 opts) = map_option written_file (cli_action e2 opts)"
  proof (cases "parseSize (cli_chunkSize opts)")
    case (Inl err)
    then show ?thesis by (simp add: cli_action_def)
  next
    case (Inr c)
    from assms show ?thesis
      by (simp add: cli_action_def Inr generateData_written_env [of _ _ e1 _ _ e2])
  qed
next
  show "map_option thrown (cli_action e1 opts) = map_option thrown (cli_action e2 opts)"
  proof (cases "parseSize (cli_chunkSize opts)")
    case (Inl err)
    then show ?thesis by (simp add: cli_action_def)
  next
    case c: (Inr c)
    show ?thesis
    proof (cases "parseSize (cli_size opts)")
      case (Inl err)
      then show ?thesis by (simp add: cli_action_def c generateData_invalid_size)
    next
      case (Inr t)
      show ?thesis
      proof (cases "cli_type opts = js ''text'' \<or> cli_type opts = js ''binary''")
        case True
        with c Inr cli_action_outcome [of e1 opts] cli_action_outcome [of e2 opts]
        show ?thesis by auto
      next
        case False
        then show ?thesis by (simp add: cli_action_def c generateData_unknown_type [OF Inr])
      qed
    qed
  qed
next
  fix t assume "parseSize sz = Inr t"
  from generateData_text [OF this, of gopts e out]
  show "\<exists>bs r. encoded utf8_encode (TextDataGenerator t (opt_pattern gopts) (opt_chunkSize gopts))
                     = Some bs
             \<and> generateData e (js ''text'') sz out gopts = Some r
             \<and> written_file r = Some (out, bs)"
    by blast
next
  fix t assume "parseSize sz = Inr t"
  from generateData_binary [OF this, of e gopts out]
  show "\<exists>bs r. emitted (BinaryDataGenerator e t (opt_binaryPattern gopts) (opt_chunkSize gopts))
                     = Some bs
             \<and> generateData e (js ''binary'') sz out gopts = Some r
             \<and> written_file r = Some (out, bs)"
    by blast
qed


theorem output_deterministic_witness:
  "js ''zeros'' \<noteq> js ''random''
   \<and> (\<exists>r. cli_action quiet_env
          \<lparr>cli_type = js ''binary'', cli_size = js ''10'', cli_output = js ''out.bin'',
           cli_pattern = None, cli_binaryPattern = js ''zeros'', cli_chunkSize = js ''64KB''\<rparr>
        = Some r)
   \<and> map_option written_file (cli_action quiet_env
          \<lparr>cli_type = js ''binary'', cli_size = js ''10'', cli_output = js ''out.bin'',
           cli_pattern = None, cli_binaryPattern = js ''zeros'', cli_chunkSize = js ''64KB''\<rparr>)
     = map_option written_file (cli_action noisy_env
          \<lparr>cli_type = js ''binary'', cli_size = js ''10'', cli_output = js ''out.bin'',
           cli_pattern = None, cli_binaryPattern = js ''zeros'', cli_chunkSize = js ''64KB''\<rparr>)
   \<and> parseSize (js ''10'') = Inr 10
   \<and> (\<exists>bs r. encoded utf8_encode (TextDataGenerator 10 (Some (js ''AB'')) None) = Some bs
          \<and> generateData noisy_env (js ''text'') (js ''10'') (js ''out.txt'')
               \<lparr>opt_pattern = Some (js ''AB''), opt_binaryPattern = None, opt_chunkSize = None\<rparr>
             = Some r
          \<and> written_file r = Some (js ''out.txt'', bs))"
proof -
  let ?o = "\<lparr>cli_type = js ''binary'', cli_size = js ''10'', cli_output = js ''out.bin'',
             cli_pattern = None, cli_binaryPattern = js ''zeros'', cli_chunkSize = js ''64KB''\<rparr>"
  let ?g = "\<lparr>opt_pattern = Some (js ''AB''), opt_binaryPattern = None, opt_chunkSize = None\<rparr>"
  have ne: "js ''zeros'' \<noteq> js ''random''"
    by (simp add: js_def)
  then have h: "cli_type ?o = js ''binary'' \<longrightarrow> cli_binaryPattern ?o \<noteq> js ''random''"
    by simp
  from output_deterministic [OF h, of quiet_env noisy_env "js ''10''" ?g noisy_env "js ''out.txt''"]
    parse_10 ne
  show ?thesis by simp
qed







section \<open>Claims about size strings\<close>

















end
